theory Spec2Isabelle
  imports Main "HOL-Library.Sublist"
begin

section \<open>Data model\<close>

text \<open>
  The \<^verbatim>\<open>Record\<close> interface of the synchroniser. JavaScript numbers that hold
  identifiers and counters are modelled as \<open>int\<close>; a \<^verbatim>\<open>Date\<close> is modelled by its
  timestamp.
\<close>

record Record =
  timeId :: int
  userId :: int
  username :: string
  mapId :: int
  game :: int
  style :: int
  course :: int
  date :: int
  time :: int

text \<open>
  One element of \<^verbatim>\<open>response.data.data\<close> of the \<^verbatim>\<open>time/worldrecord\<close> endpoint, with
  the fields the code reads: \<^verbatim>\<open>id\<close>, \<^verbatim>\<open>user.id\<close>, \<^verbatim>\<open>user.username\<close>, \<^verbatim>\<open>map.id\<close>,
  \<^verbatim>\<open>game_id\<close>, \<^verbatim>\<open>style_id\<close>, \<^verbatim>\<open>mode_id\<close>, \<^verbatim>\<open>date\<close>, \<^verbatim>\<open>time\<close>.
\<close>

record ApiTime =
  t_id :: int
  t_user_id :: int
  t_user_username :: string
  t_map_id :: int
  t_game_id :: int
  t_style_id :: int
  t_mode_id :: int
  t_date :: int
  t_time :: int

text \<open>
  A resolved HTTP response of the record endpoint. \<open>rate_limit_burst\<close> is the header
  \<^verbatim>\<open>x-rate-limit-burst\<close>: \<open>Some n\<close> when it is a string that converts to the number
  \<open>n\<close>, \<open>None\<close> when it is absent, not a string, or converts to NaN (every comparison
  with NaN is false, so the tracker is left alone in all three cases).
\<close>

record Response =
  rate_limit_burst :: "int option"
  data :: "ApiTime list"

text \<open>What the promise of \<^verbatim>\<open>axios.get\<close> does: it resolves, or it rejects with a cause
  (network error, timeout after 3000 ms, non-2xx status).\<close>

datatype 'a Outcome = Resolved 'a | Rejected string

section \<open>The fetcher\<close>

text \<open>
  \<^verbatim>\<open>tryGetRequest\<close>: the \<^verbatim>\<open>try\<close> returns the response, the \<^verbatim>\<open>catch\<close> logs the
  cause and returns \<^verbatim>\<open>undefined\<close>. The result is the value returned together with
  the lines written to the console.
\<close>

definition tryGetRequest :: "'a Outcome \<Rightarrow> 'a option \<times> string list" where
  "tryGetRequest outcome =
     (case outcome of Resolved r \<Rightarrow> (Some r, []) | Rejected err \<Rightarrow> (None, [err]))"

text \<open>\<^verbatim>\<open>tryGetStrafes\<close> and \<^verbatim>\<open>tryGetMaps\<close> add the API key header and delegate.\<close>

definition tryGetStrafes :: "'a Outcome \<Rightarrow> 'a option \<times> string list" where
  "tryGetStrafes outcome = tryGetRequest outcome"

definition tryGetMaps :: "'a Outcome \<Rightarrow> 'a option \<times> string list" where
  "tryGetMaps outcome = tryGetRequest outcome"

section \<open>Deduplication of records\<close>

definition toRecord :: "ApiTime \<Rightarrow> Record" where
  "toRecord r = \<lparr> timeId = t_id r, userId = t_user_id r, username = t_user_username r,
     mapId = t_map_id r, game = t_game_id r, style = t_style_id r, course = t_mode_id r,
     date = t_date r, time = t_time r \<rparr>"

text \<open>
  The body of \<^verbatim>\<open>for (const record of data)\<close>, shared by \<^verbatim>\<open>loadAllWRs\<close> and
  \<^verbatim>\<open>refreshWRs\<close>: skip a record whose id is in \<^verbatim>\<open>timeIds\<close>, otherwise add the id and
  push the converted record. The accumulator is the pair \<^verbatim>\<open>(wrs, timeIds)\<close>.
\<close>

definition push_record :: "ApiTime \<Rightarrow> Record list \<times> int set \<Rightarrow> Record list \<times> int set" where
  "push_record r acc =
     (if t_id r \<in> snd acc then acc
      else (fst acc @ [toRecord r], insert (t_id r) (snd acc)))"

definition collect :: "ApiTime list \<Rightarrow> Record list \<times> int set \<Rightarrow> Record list \<times> int set" where
  "collect rs acc = fold push_record rs acc"

text \<open>
  The deduplicator in the words of the specification: keep the first occurrence of each
  identifier, in arrival order.
\<close>

fun first_occurrences :: "('a \<Rightarrow> 'k) \<Rightarrow> 'a list \<Rightarrow> 'a list" where
  "first_occurrences key [] = []"
| "first_occurrences key (x # xs) =
     x # first_occurrences key (filter (\<lambda>y. key y \<noteq> key x) xs)"

section \<open>The pagination loop\<close>

datatype Event = Request nat | Sleep nat

text \<open>
  The local variables of \<^verbatim>\<open>loadAllWRs\<close>, with the effects of the run: the page
  requests issued and the sleeps, in order, and the causes logged by the fetcher.
\<close>

record LoopState =
  wrs :: "Record list"
  timeIds :: "int set"
  burstRemaining :: int
  page :: nat
  hasMore :: bool
  events :: "Event list"
  console :: "string list"

type_synonym Source = "nat \<Rightarrow> Response Outcome"

definition loadAllWRs_init :: LoopState where
  "loadAllWRs_init = \<lparr> wrs = [], timeIds = {}, burstRemaining = 999, page = 1,
     hasMore = True, events = [], console = [] \<rparr>"

text \<open>The body of \<^verbatim>\<open>for (const response of resolved)\<close>.\<close>

definition track_burst :: "Response \<Rightarrow> LoopState \<Rightarrow> LoopState" where
  "track_burst r st =
     (case rate_limit_burst r of
        None \<Rightarrow> st
      | Some n \<Rightarrow> if n < burstRemaining st then st\<lparr>burstRemaining := n\<rparr> else st)"

definition process_response :: "Response option \<Rightarrow> LoopState \<Rightarrow> LoopState" where
  "process_response response st =
     (case response of
        None \<Rightarrow> st
      | Some r \<Rightarrow>
          if length (data r) \<le> 0 then (track_burst r st)\<lparr>hasMore := False\<rparr>
          else (track_burst r st)\<lparr>
                 wrs := fst (collect (data r) (wrs st, timeIds st)),
                 timeIds := snd (collect (data r) (wrs st, timeIds st))\<rparr>)"

text \<open>
  One burst: five requests for pages \<^verbatim>\<open>page .. page + 4\<close> are issued, the cursor
  is advanced by five, and the resolved responses are processed in page order.
\<close>

definition burst_pages :: "LoopState \<Rightarrow> nat list" where
  "burst_pages st = map (\<lambda>i. page st + i) [0..<5]"

definition resolved :: "Source \<Rightarrow> LoopState \<Rightarrow> Response option list" where
  "resolved src st = map (\<lambda>p. fst (tryGetStrafes (src p))) (burst_pages st)"

definition burst :: "Source \<Rightarrow> LoopState \<Rightarrow> LoopState" where
  "burst src st =
     fold process_response (resolved src st)
       (st\<lparr> page := page st + 5,
            events := events st @ map Request (burst_pages st),
            console := console st @ concat (map (\<lambda>p. snd (tryGetStrafes (src p))) (burst_pages st)) \<rparr>)"

text \<open>The rate-limit check at the end of the loop body.\<close>

definition cooldown :: "LoopState \<Rightarrow> LoopState" where
  "cooldown st =
     (if burstRemaining st < 70
      then st\<lparr> burstRemaining := 999, events := events st @ [Sleep (1000 * 60)] \<rparr>
      else st)"

text \<open>The body of \<^verbatim>\<open>while (hasMore)\<close>, with its \<^verbatim>\<open>if (!hasMore) break\<close>.\<close>

definition loop_body :: "Source \<Rightarrow> LoopState \<Rightarrow> LoopState" where
  "loop_body src st =
     (if \<not> hasMore (burst src st) then burst src st else cooldown (burst src st))"

text \<open>The loop itself; a run that never sees an empty page does not return.\<close>

partial_function (option) while_hasMore :: "Source \<Rightarrow> LoopState \<Rightarrow> LoopState option" where
  "while_hasMore src st =
     (if hasMore st then while_hasMore src (loop_body src st) else Some st)"

definition loadAllWRs :: "Source \<Rightarrow> Record list option" where
  "loadAllWRs src = map_option wrs (while_hasMore src loadAllWRs_init)"

text \<open>The state after at most \<open>n\<close> iterations of the loop, for statements about every
  round of every run, returning or not.\<close>

primrec rounds :: "nat \<Rightarrow> Source \<Rightarrow> LoopState \<Rightarrow> LoopState" where
  "rounds 0 src st = st"
| "rounds (Suc n) src st = (if hasMore st then rounds n src (loop_body src st) else st)"

text \<open>What a run observes of page \<open>p\<close> of the source: the response or
  \<^verbatim>\<open>undefined\<close>, its records, whether it resolved with zero records, and the
  remaining burst capacity it reports.\<close>

definition fetched :: "Source \<Rightarrow> nat \<Rightarrow> Response option" where
  "fetched src p = fst (tryGetStrafes (src p))"

definition page_data :: "Source \<Rightarrow> nat \<Rightarrow> ApiTime list" where
  "page_data src p = (case fetched src p of None \<Rightarrow> [] | Some r \<Rightarrow> data r)"

definition page_empty :: "Source \<Rightarrow> nat \<Rightarrow> bool" where
  "page_empty src p = (case fetched src p of None \<Rightarrow> False | Some r \<Rightarrow> data r = [])"

definition page_reported :: "Source \<Rightarrow> nat \<Rightarrow> int option" where
  "page_reported src p = (case fetched src p of None \<Rightarrow> None | Some r \<Rightarrow> rate_limit_burst r)"

definition pages_data :: "Source \<Rightarrow> nat list \<Rightarrow> ApiTime list" where
  "pages_data src ps = concat (map (page_data src) ps)"

text \<open>The minimum remaining capacity reported by the responses of pages \<open>ps\<close>, if
  any of them reports one.\<close>

definition round_min :: "Source \<Rightarrow> nat list \<Rightarrow> int option" where
  "round_min src ps =
     (case List.map_filter (page_reported src) ps of
        [] \<Rightarrow> None
      | x # xs \<Rightarrow> Some (Min (set (x # xs))))"

definition below_threshold :: "int option \<Rightarrow> bool" where
  "below_threshold m = (case m of None \<Rightarrow> False | Some n \<Rightarrow> n < 70)"

text \<open>The page numbers requested, in order.\<close>

fun request_pages :: "Event list \<Rightarrow> nat list" where
  "request_pages [] = []"
| "request_pages (Request p # es) = p # request_pages es"
| "request_pages (Sleep ms # es) = request_pages es"

section \<open>The user merge\<close>

text \<open>The loop of \<^verbatim>\<open>insertUsers\<close> that builds \<^verbatim>\<open>userRows\<close>; the accumulator is the
  pair \<^verbatim>\<open>(userRows, userIdSet)\<close>.\<close>

definition push_user :: "Record \<Rightarrow> (int \<times> string) list \<times> int set \<Rightarrow> (int \<times> string) list \<times> int set" where
  "push_user wr acc =
     (if userId wr \<in> snd acc then acc
      else (fst acc @ [(userId wr, username wr)], insert (userId wr) (snd acc)))"

definition userRows :: "Record list \<Rightarrow> (int \<times> string) list" where
  "userRows ws = fst (fold push_user ws ([], {}))"

section \<open>The map catalog\<close>

text \<open>One element of the \<^verbatim>\<open>map\<close> endpoint's \<^verbatim>\<open>data\<close>, and the \<^verbatim>\<open>StrafesMap\<close>
  interface. \<open>a_thumbnail\<close> is \<open>None\<close> when the field is absent or null.\<close>

record ApiMap =
  a_id :: int
  a_display_name :: string
  a_creator :: string
  a_game_id :: int
  a_date :: int
  a_created_at :: int
  a_updated_at :: int
  a_submitter :: int
  a_thumbnail :: "int option"
  a_asset_version :: int
  a_load_count :: int
  a_modes :: int

record StrafesMap =
  m_id :: int
  m_name :: string
  m_creator :: string
  m_game :: int
  m_date :: int
  m_createdAt :: int
  m_updatedAt :: int
  m_submitter :: int
  m_smallThumb :: "string option"
  m_largeThumb :: "string option"
  m_assetVersion :: int
  m_loadCount :: int
  m_modes :: int

type_synonym MapSource = "nat \<Rightarrow> ApiMap list Outcome"

text \<open>The thumbnail endpoint: asset ids and a size to a list of
  \<^verbatim>\<open>(targetId, imageUrl)\<close>.\<close>

type_synonym ThumbSource = "int list \<Rightarrow> string \<Rightarrow> (int \<times> string) list Outcome"

text \<open>\<^verbatim>\<open>if (map.thumbnail)\<close>: absent, null and 0 are falsy.\<close>

definition truthy_thumbnail :: "ApiMap \<Rightarrow> int option" where
  "truthy_thumbnail m =
     (case a_thumbnail m of None \<Rightarrow> None | Some n \<Rightarrow> if n = 0 then None else Some n)"

definition set_large :: "int \<times> string \<Rightarrow> (int \<rightharpoonup> (string \<rightharpoonup> string)) \<Rightarrow> (int \<rightharpoonup> (string \<rightharpoonup> string))" where
  "set_large assetInfo assetToThumb =
     assetToThumb(fst assetInfo \<mapsto> [''large'' \<mapsto> snd assetInfo])"

definition set_small :: "int \<times> string \<Rightarrow> (int \<rightharpoonup> (string \<rightharpoonup> string)) \<Rightarrow> (int \<rightharpoonup> (string \<rightharpoonup> string))" where
  "set_small assetInfo assetToThumb =
     (case assetToThumb (fst assetInfo) of
        Some urlMap \<Rightarrow> assetToThumb(fst assetInfo \<mapsto> urlMap(''small'' \<mapsto> snd assetInfo))
      | None \<Rightarrow> assetToThumb(fst assetInfo \<mapsto> [''small'' \<mapsto> snd assetInfo]))"

definition thumbs_of :: "ThumbSource \<Rightarrow> ApiMap list \<Rightarrow> (int \<rightharpoonup> (string \<rightharpoonup> string))" where
  "thumbs_of tsrc ms =
     (let assetIds = List.map_filter truthy_thumbnail ms;
          largeReq = fst (tryGetRequest (tsrc assetIds ''420x420''));
          smallReq = fst (tryGetRequest (tsrc assetIds ''75x75''));
          withLarge = (case largeReq of None \<Rightarrow> Map.empty | Some d \<Rightarrow> fold set_large d Map.empty)
      in (case smallReq of None \<Rightarrow> withLarge | Some d \<Rightarrow> fold set_small d withLarge))"

definition toStrafesMap :: "(int \<rightharpoonup> (string \<rightharpoonup> string)) \<Rightarrow> ApiMap \<Rightarrow> StrafesMap" where
  "toStrafesMap assetToThumb m =
     \<lparr> m_id = a_id m, m_name = a_display_name m, m_creator = a_creator m, m_game = a_game_id m,
       m_date = a_date m, m_createdAt = a_created_at m, m_updatedAt = a_updated_at m,
       m_submitter = a_submitter m,
       m_smallThumb = (case truthy_thumbnail m of None \<Rightarrow> None
          | Some t \<Rightarrow> (case assetToThumb t of None \<Rightarrow> None | Some urls \<Rightarrow> urls ''small'')),
       m_largeThumb = (case truthy_thumbnail m of None \<Rightarrow> None
          | Some t \<Rightarrow> (case assetToThumb t of None \<Rightarrow> None | Some urls \<Rightarrow> urls ''large'')),
       m_assetVersion = a_asset_version m, m_loadCount = a_load_count m, m_modes = a_modes m \<rparr>"

definition page_maps :: "ThumbSource \<Rightarrow> ApiMap list \<Rightarrow> StrafesMap list" where
  "page_maps tsrc ms = map (toStrafesMap (thumbs_of tsrc ms)) ms"

text \<open>
  The \<^verbatim>\<open>while (true)\<close> of \<^verbatim>\<open>loadMaps\<close>, with the page counter \<^verbatim>\<open>i\<close> and the
  array \<^verbatim>\<open>maps\<close> as arguments. A failed page fetch returns the empty array
  (\<^verbatim>\<open>return []\<close>), an empty page or a page shorter than 100 ends the loop.
\<close>

partial_function (option) loadMaps_loop ::
  "MapSource \<Rightarrow> ThumbSource \<Rightarrow> nat \<Rightarrow> StrafesMap list \<Rightarrow> StrafesMap list option" where
  "loadMaps_loop msrc tsrc i ms =
     (case fst (tryGetMaps (msrc i)) of
        None \<Rightarrow> Some []
      | Some d \<Rightarrow>
          if length d < 1 then Some ms
          else if length d < 100 then Some (ms @ page_maps tsrc d)
          else loadMaps_loop msrc tsrc (i + 1) (ms @ page_maps tsrc d))"

definition loadMaps :: "MapSource \<Rightarrow> ThumbSource \<Rightarrow> StrafesMap list option" where
  "loadMaps msrc tsrc = loadMaps_loop msrc tsrc 1 []"

section \<open>The store\<close>

text \<open>A row of the table \<^verbatim>\<open>globals\<close>, as built by \<^verbatim>\<open>wrRows\<close>.\<close>

record GlobalsRow =
  g_time_id :: int
  g_user_id :: int
  g_map_id :: int
  g_game :: int
  g_style :: int
  g_course :: int
  g_date :: int
  g_time :: int

definition wrRow :: "Record \<Rightarrow> GlobalsRow" where
  "wrRow r = \<lparr> g_time_id = timeId r, g_user_id = userId r, g_map_id = mapId r,
     g_game = game r, g_style = style r, g_course = course r, g_date = date r,
     g_time = time r \<rparr>"

definition wrRows :: "Record list \<Rightarrow> GlobalsRow list" where
  "wrRows ws = map wrRow ws"

datatype Stmt =
    UpsertUsers "(int \<times> string) list"
  | TruncateMaps
  | InsertMaps "StrafesMap list"
  | TruncateGlobals
  | InsertGlobals "GlobalsRow list"
  | UpsertGlobals "GlobalsRow list"

text \<open>
  Modelled from the spec: the relational store behind \<^verbatim>\<open>connection.query\<close> (the
  MySQL server and its driver) is not part of the repository. The tables are the three
  of the \<^verbatim>\<open>CREATE TABLE\<close> statements of \<^verbatim>\<open>main\<close>; each statement of the program
  is applied as the specification's upsert sink describes it (clear, bulk insert, merge
  on conflict), and recorded in \<open>journal\<close> in the order of execution. The store never
  rejects a statement: the keys and foreign keys that \<^verbatim>\<open>main\<close> declares are
  predicates on its states (\<open>pk_ok\<close>, \<open>slot_ok\<close>, \<open>fk_ok\<close> below).
\<close>

record DB =
  users :: "int \<rightharpoonup> string"
  maps :: "StrafesMap list"
  globals :: "GlobalsRow list"
  journal :: "Stmt list"

text \<open>The columns of \<^verbatim>\<open>UNIQUE INDEX map_index (map_id, game, style, course)\<close>.\<close>

definition slot :: "GlobalsRow \<Rightarrow> int \<times> int \<times> int \<times> int" where
  "slot x = (g_map_id x, g_game x, g_style x, g_course x)"

fun replace_first :: "('a \<Rightarrow> bool) \<Rightarrow> 'a \<Rightarrow> 'a list \<Rightarrow> 'a list" where
  "replace_first P r [] = []"
| "replace_first P r (x # xs) = (if P x then r # xs else x # replace_first P r xs)"

text \<open>
  Modelled from the spec: how the store applies one row of
  \<^verbatim>\<open>INSERT ... ON DUPLICATE KEY UPDATE\<close> is the database server's and is not in the
  repository. The statement assigns every column from the new row, and the keys that
  \<^verbatim>\<open>main\<close> declares for \<^verbatim>\<open>globals\<close> are \<^verbatim>\<open>PRIMARY KEY (time_id)\<close> and
  \<^verbatim>\<open>UNIQUE INDEX map_index\<close>: a stored row with the same primary key, else a stored
  row with the same \<^verbatim>\<open>map_index\<close> key, is overwritten in place with the incoming
  values (the specification's merge on conflict, last write wins); otherwise the row is
  inserted. Nothing is rejected: when the incoming row meets one stored row by primary
  key and another one by \<^verbatim>\<open>map_index\<close>, the first is overwritten and \<open>slot_ok\<close> no
  longer holds.
\<close>

definition upsert_row :: "GlobalsRow \<Rightarrow> GlobalsRow list \<Rightarrow> GlobalsRow list" where
  "upsert_row r tbl =
     (if list_ex (\<lambda>x. g_time_id x = g_time_id r) tbl
      then replace_first (\<lambda>x. g_time_id x = g_time_id r) r tbl
      else if list_ex (\<lambda>x. slot x = slot r) tbl
      then replace_first (\<lambda>x. slot x = slot r) r tbl
      else tbl @ [r])"

definition upsert_user :: "int \<times> string \<Rightarrow> (int \<rightharpoonup> string) \<Rightarrow> (int \<rightharpoonup> string)" where
  "upsert_user row tbl = tbl(fst row \<mapsto> snd row)"

text \<open>
  Modelled from the spec: the effect of each statement on the tables. The user upsert
  merges on \<^verbatim>\<open>user_id\<close> and overwrites the username; \<^verbatim>\<open>TRUNCATE\<close> clears a
  table; a plain \<^verbatim>\<open>INSERT\<close> adds its rows; the record upsert applies \<open>upsert_row\<close>
  to its rows in order.
\<close>

fun exec :: "Stmt \<Rightarrow> DB \<Rightarrow> DB" where
  "exec (UpsertUsers rows) db = db\<lparr>users := fold upsert_user rows (users db)\<rparr>"
| "exec TruncateMaps db = db\<lparr>maps := []\<rparr>"
| "exec (InsertMaps rows) db = db\<lparr>maps := maps db @ rows\<rparr>"
| "exec TruncateGlobals db = db\<lparr>globals := []\<rparr>"
| "exec (InsertGlobals rows) db = db\<lparr>globals := globals db @ rows\<rparr>"
| "exec (UpsertGlobals rows) db = db\<lparr>globals := fold upsert_row rows (globals db)\<rparr>"

definition query :: "Stmt \<Rightarrow> DB \<Rightarrow> DB" where
  "query stmt db = (exec stmt db)\<lparr>journal := journal db @ [stmt]\<rparr>"






section \<open>Reconciliation\<close>

definition insertUsers :: "Record list \<Rightarrow> DB \<Rightarrow> DB" where
  "insertUsers ws db = query (UpsertUsers (userRows ws)) db"

text \<open>\<^verbatim>\<open>wrsHaveMapsLoaded\<close>: the distinct map ids of the batch, the rows that
  \<^verbatim>\<open>SELECT map_id FROM maps WHERE map_id IN (?)\<close> returns, and the comparison of the
  two lengths.\<close>

definition push_mapId :: "Record \<Rightarrow> int list \<times> int set \<Rightarrow> int list \<times> int set" where
  "push_mapId wr acc =
     (if mapId wr \<in> snd acc then acc
      else (fst acc @ [mapId wr], insert (mapId wr) (snd acc)))"

definition mapIds_of :: "Record list \<Rightarrow> int list" where
  "mapIds_of ws = fst (fold push_mapId ws ([], {}))"

definition select_map_ids :: "int list \<Rightarrow> DB \<Rightarrow> int list" where
  "select_map_ids ids db = filter (\<lambda>i. i \<in> set ids) (map m_id (maps db))"

definition wrsHaveMapsLoaded :: "Record list \<Rightarrow> DB \<Rightarrow> bool" where
  "wrsHaveMapsLoaded ws db =
     (length (select_map_ids (mapIds_of ws) db) = length (mapIds_of ws))"

text \<open>
  \<^verbatim>\<open>updateMaps\<close>: \<open>None\<close> when \<^verbatim>\<open>loadMaps\<close> does not return. \<^verbatim>\<open>loadMaps\<close> returns
  an array on every path, and an array is truthy, so the test \<^verbatim>\<open>if (!maps)\<close> is
  never taken; the model keeps the test through \<open>falsy\<close>.
\<close>

definition falsy :: "'a list \<Rightarrow> bool" where
  "falsy array = False"

definition updateMaps :: "MapSource \<Rightarrow> ThumbSource \<Rightarrow> DB \<Rightarrow> (bool \<times> DB) option" where
  "updateMaps msrc tsrc db =
     (case loadMaps msrc tsrc of
        None \<Rightarrow> None
      | Some ms \<Rightarrow>
          if falsy ms then Some (False, db)
          else Some (True, query (InsertMaps ms) (query TruncateMaps db)))"

text \<open>\<^verbatim>\<open>refreshWRs\<close>. The operator \<^verbatim>\<open>&&\<close> calls \<^verbatim>\<open>updateMaps\<close> only when
  \<^verbatim>\<open>wrsHaveMapsLoaded\<close> is false.\<close>

definition upsertWRs :: "Record list \<Rightarrow> DB \<Rightarrow> bool \<times> DB" where
  "upsertWRs ws db = (True, query (UpsertGlobals (wrRows ws)) db)"

definition refreshWRs :: "Source \<Rightarrow> MapSource \<Rightarrow> ThumbSource \<Rightarrow> DB \<Rightarrow> (bool \<times> DB) option" where
  "refreshWRs src msrc tsrc db =
     (case fst (tryGetStrafes (src 1)) of
        None \<Rightarrow> Some (False, db)
      | Some response \<Rightarrow>
          (let ws = fst (collect (data response) ([], {}));
               db1 = insertUsers ws db
           in if wrsHaveMapsLoaded ws db1 then Some (upsertWRs ws db1)
              else (case updateMaps msrc tsrc db1 of
                      None \<Rightarrow> None
                    | Some (ok, db2) \<Rightarrow>
                        if \<not> ok then Some (False, db2) else Some (upsertWRs ws db2))))"

definition insertWRs :: "Record list \<Rightarrow> DB \<Rightarrow> bool \<times> DB" where
  "insertWRs ws db =
     (True, query (InsertGlobals (wrRows ws)) (query TruncateGlobals (insertUsers ws db)))"

definition seedWRs :: "Source \<Rightarrow> MapSource \<Rightarrow> ThumbSource \<Rightarrow> DB \<Rightarrow> (bool \<times> DB) option" where
  "seedWRs src msrc tsrc db =
     (case updateMaps msrc tsrc db of
        None \<Rightarrow> None
      | Some (ok, db1) \<Rightarrow>
          if \<not> ok then Some (False, db1)
          else (case loadAllWRs src of
                  None \<Rightarrow> None
                | Some ws \<Rightarrow> Some (insertWRs ws db1)))"

text \<open>The end of \<^verbatim>\<open>main\<close>, after the credentials have been found and the tables
  created: the mode selects the operation, and \<^verbatim>\<open>process.exitCode\<close> is
  \<^verbatim>\<open>success ? 0 : 1\<close>.\<close>

datatype Mode = Seed | Refresh

definition main :: "Mode \<Rightarrow> Source \<Rightarrow> MapSource \<Rightarrow> ThumbSource \<Rightarrow> DB \<Rightarrow> (int \<times> DB) option" where
  "main mode src msrc tsrc db =
     map_option (\<lambda>(success, db'). (if success then 0 else 1, db'))
       (if mode = Seed then seedWRs src msrc tsrc db else refreshWRs src msrc tsrc db)"

section \<open>Example inputs\<close>

text \<open>A source with one record on each of the pages 1 to 6 and on page 8, an empty
  page 7, and failing fetches from page 9 on; every response reports a remaining burst
  capacity of 50.\<close>

definition example_time :: "int \<Rightarrow> ApiTime" where
  "example_time i = \<lparr> t_id = i, t_user_id = 10, t_user_username = ''alice'', t_map_id = i,
     t_game_id = 1, t_style_id = 1, t_mode_id = 0, t_date = 0, t_time = 1000 \<rparr>"

definition example_source :: Source where
  "example_source p =
     (if p = 7 then Resolved \<lparr> rate_limit_burst = Some 50, data = [] \<rparr>
      else if p < 9 then Resolved \<lparr> rate_limit_burst = Some 50, data = [example_time (int p)] \<rparr>
      else Rejected ''timeout of 3000ms exceeded'')"

text \<open>A source whose every fetch fails, an empty store, a catalog of one map with
  id 2, a catalog whose fetch fails, and a thumbnail endpoint that fails.\<close>

definition failing_source :: Source where
  "failing_source p = Rejected ''timeout of 3000ms exceeded''"

definition example_db :: DB where
  "example_db = \<lparr> users = Map.empty, maps = [], globals = [], journal = [] \<rparr>"

definition example_map :: "int \<Rightarrow> ApiMap" where
  "example_map i = \<lparr> a_id = i, a_display_name = ''map'', a_creator = ''bob'', a_game_id = 1,
     a_date = 0, a_created_at = 0, a_updated_at = 0, a_submitter = 10, a_thumbnail = None,
     a_asset_version = 1, a_load_count = 0, a_modes = 1 \<rparr>"

definition example_map_source :: MapSource where
  "example_map_source p = (if p = 1 then Resolved [example_map 2] else Resolved [])"



definition example_thumb_source :: ThumbSource where
  "example_thumb_source assetIds sz = Rejected ''Request failed with status code 429''"

section \<open>Notions used in the proofs\<close>

text \<open>Overwriting the row of a slot, and the last row of a batch for a slot.\<close>

definition put_slot :: "GlobalsRow \<Rightarrow> GlobalsRow \<Rightarrow> GlobalsRow" where
  "put_slot b x = (if slot x = slot b then b else x)"


section \<open>Properties of the deduplicator\<close>

lemma collect_Nil [simp]: "collect [] acc = acc"
  by (simp add: collect_def)

lemma collect_Cons [simp]: "collect (r # rs) acc = collect rs (push_record r acc)"
  by (simp add: collect_def)

lemma collect_append [simp]: "collect (rs @ rs') acc = collect rs' (collect rs acc)"
  by (simp add: collect_def)

lemma fold_push_eq:
  assumes push: "\<And>x acc. push x acc =
      (if key x \<in> snd acc then acc else (fst acc @ [f x], insert (key x) (snd acc)))"
  shows "fold push xs (w, t) =
     (w @ map f (first_occurrences key (filter (\<lambda>x. key x \<notin> t) xs)), t \<union> key ` set xs)"
proof (induction xs arbitrary: w t)
  case Nil
  show ?case by simp
next
  case (Cons x xs)
  show ?case
  proof (cases "key x \<in> t")
    case True
    then have "push x (w, t) = (w, t)"
      by (simp add: push)
    then show ?thesis using True Cons [of w t] by auto
  next
    case False
    have "push x (w, t) = (w @ [f x], insert (key x) t)"
      using False by (simp add: push)
    then show ?thesis using False Cons [of "w @ [f x]" "insert (key x) t"]
      by (simp add: conj_commute)
  qed
qed

lemma first_occurrences_subset: "set (first_occurrences key xs) \<subseteq> set xs"
  by (induction key xs rule: first_occurrences.induct) auto

lemma first_occurrences_keys: "key ` set (first_occurrences key xs) = key ` set xs"
proof (induction key xs rule: first_occurrences.induct)
  case (1 key)
  show ?case by simp
next
  case (2 key x xs)
  have "key ` set (x # xs) = insert (key x) (key ` set (filter (\<lambda>y. key y \<noteq> key x) xs))"
    by auto
  then show ?case using 2 by simp
qed

lemma first_occurrences_distinct: "distinct (map key (first_occurrences key xs))"
proof (induction key xs rule: first_occurrences.induct)
  case (1 key)
  show ?case by simp
next
  case (2 key x xs)
  have "key x \<notin> key ` set (filter (\<lambda>y. key y \<noteq> key x) xs)"
    by auto
  then have "key x \<notin> key ` set (first_occurrences key (filter (\<lambda>y. key y \<noteq> key x) xs))"
    unfolding first_occurrences_keys .
  then show ?case using 2 by simp
qed

lemma first_occurrences_id:
  "distinct (map key xs) \<Longrightarrow> first_occurrences key xs = xs"
proof (induction xs)
  case Nil
  show ?case by simp
next
  case (Cons x xs)
  then have "filter (\<lambda>y. key y \<noteq> key x) xs = xs"
    by (auto simp: filter_id_conv intro: rev_image_eqI)
  then show ?case using Cons by simp
qed

lemma find_filter_implied:
  "(\<And>x. P x \<Longrightarrow> Q x) \<Longrightarrow> find P (filter Q xs) = find P xs"
  by (induction xs) auto

lemma find_first_occurrences:
  "find (\<lambda>w. key w = u) (first_occurrences key xs) = find (\<lambda>w. key w = u) xs"
proof (induction key xs rule: first_occurrences.induct)
  case (1 key)
  show ?case by simp
next
  case (2 key x xs)
  show ?case
  proof (cases "key x = u")
    case True
    then show ?thesis by simp
  next
    case False
    then have "find (\<lambda>w. key w = u) (filter (\<lambda>y. key y \<noteq> key x) xs) = find (\<lambda>w. key w = u) xs"
      by (intro find_filter_implied) auto
    then show ?thesis using False 2 by simp
  qed
qed

lemma count_key_distinct:
  "distinct (map key xs) \<Longrightarrow>
     length (filter (\<lambda>w. key w = i) xs) = (if i \<in> key ` set xs then 1 else 0)"
  by (induction xs) auto

lemma timeId_toRecord [simp]: "timeId (toRecord x) = t_id x"
  by (simp add: toRecord_def)

lemma collect_eq:
  "collect rs (w, t) =
     (w @ map toRecord (first_occurrences t_id (filter (\<lambda>x. t_id x \<notin> t) rs)),
      t \<union> t_id ` set rs)"
  unfolding collect_def by (rule fold_push_eq) (simp add: push_record_def)

lemma collect_empty:
  "collect rs ([], {}) = (map toRecord (first_occurrences t_id rs), t_id ` set rs)"
  by (simp add: collect_eq)

lemma map_timeId_toRecord: "map timeId (map toRecord xs) = map t_id xs"
  by simp

lemma find_map_toRecord:
  "find (\<lambda>w. timeId w = i) (map toRecord xs) = map_option toRecord (find (\<lambda>x. t_id x = i) xs)"
  by (induction xs) auto

lemma collect_twice: "fst (collect (rs @ rs) ([], {})) = fst (collect rs ([], {}))"
proof -
  have none: "filter (\<lambda>x. t_id x \<notin> t_id ` set rs) rs = []"
    by (simp add: filter_empty_conv)
  have "collect (rs @ rs) ([], {}) = collect rs (collect rs ([], {}))"
    by (rule collect_append)
  also have "\<dots> = collect rs (map toRecord (first_occurrences t_id rs), t_id ` set rs)"
    by (simp only: collect_empty)
  finally show ?thesis
    by (simp add: collect_eq [of rs "map toRecord (first_occurrences t_id rs)"] none collect_empty)
qed

text \<open>
  C4. Starting from an empty batch, the deduplication loop returns the first occurrence
  of every \<open>timeId\<close> of its input, in arrival order, and nothing else: its output is
  the specification's \<open>first_occurrences\<close>, the ids of the output are distinct, an id
  of the input occurs in the output exactly once (an id that is not in the input, not at
  all), the record kept for an id is the first one of the input with that id, and
  feeding the whole input a second time changes nothing.
\<close>

theorem dedup_keeps_first_occurrences:
  "fst (collect rs ([], {})) = map toRecord (first_occurrences t_id rs)
   \<and> distinct (map timeId (fst (collect rs ([], {}))))
   \<and> length (filter (\<lambda>w. timeId w = i) (fst (collect rs ([], {}))))
       = (if i \<in> t_id ` set rs then 1 else 0)
   \<and> find (\<lambda>w. timeId w = i) (fst (collect rs ([], {})))
       = map_option toRecord (find (\<lambda>x. t_id x = i) rs)
   \<and> fst (collect (rs @ rs) ([], {})) = fst (collect rs ([], {}))
   \<and> fst (collect [r, r] ([], {})) = [toRecord r]"
proof -
  let ?out = "fst (collect rs ([], {}))"
  have out: "?out = map toRecord (first_occurrences t_id rs)"
    by (simp add: collect_empty)
  have ids: "map timeId ?out = map t_id (first_occurrences t_id rs)"
    by (simp add: out)
  have dist: "distinct (map timeId ?out)"
    unfolding ids by (rule first_occurrences_distinct)
  have "timeId ` set ?out = t_id ` set (first_occurrences t_id rs)"
    by (simp add: out image_image)
  then have keys: "timeId ` set ?out = t_id ` set rs"
    by (simp only: first_occurrences_keys)
  have cnt: "length (filter (\<lambda>w. timeId w = i) ?out) = (if i \<in> t_id ` set rs then 1 else 0)"
    using count_key_distinct [OF dist, of i] by (simp only: keys)
  have fnd: "find (\<lambda>w. timeId w = i) ?out = map_option toRecord (find (\<lambda>x. t_id x = i) rs)"
    by (simp only: out find_map_toRecord find_first_occurrences)
  have two: "fst (collect [r, r] ([], {})) = [toRecord r]"
    by (simp add: push_record_def)
  show ?thesis
    using out dist cnt fnd collect_twice [of rs] two by blast
qed

section \<open>Properties of the user merge\<close>

lemma push_user_eq:
  "fold push_user ws (rows, seen) =
     (rows @ map (\<lambda>w. (userId w, username w))
               (first_occurrences userId (filter (\<lambda>w. userId w \<notin> seen) ws)),
      seen \<union> userId ` set ws)"
  by (rule fold_push_eq) (simp add: push_user_def)

lemma userRows_eq:
  "userRows ws = map (\<lambda>w. (userId w, username w)) (first_occurrences userId ws)"
  by (simp add: userRows_def push_user_eq)

lemma map_of_key_value:
  "map_of (map (\<lambda>w. (key w, val w)) xs) u = map_option val (find (\<lambda>w. key w = u) xs)"
  by (induction xs) auto

lemma fold_upsert_user:
  "distinct (map fst rows) \<Longrightarrow>
     fold upsert_user rows tbl u = (case map_of rows u of None \<Rightarrow> tbl u | Some n \<Rightarrow> Some n)"
proof (induction rows arbitrary: tbl)
  case Nil
  show ?case by simp
next
  case (Cons row rows)
  have "map_of rows (fst row) = None"
    using Cons.prems by (simp add: map_of_eq_None_iff)
  then show ?case using Cons
    by (cases row) (auto simp: upsert_user_def split: option.splits)
qed

lemma userRows_distinct: "distinct (map fst (userRows ws))"
proof -
  have "map fst (userRows ws) = map userId (first_occurrences userId ws)"
    by (simp add: userRows_eq comp_def)
  then show ?thesis
    by (simp only: first_occurrences_distinct)
qed

lemma userRows_map_of:
  "map_of (userRows ws) u = map_option username (find (\<lambda>w. userId w = u) ws)"
  by (simp only: userRows_eq map_of_key_value find_first_occurrences)

lemma users_insertUsers:
  "users (insertUsers ws db) u =
     (case find (\<lambda>w. userId w = u) ws of None \<Rightarrow> users db u | Some w \<Rightarrow> Some (username w))"
proof -
  have "users (insertUsers ws db) u = fold upsert_user (userRows ws) (users db) u"
    by (simp add: insertUsers_def query_def)
  also have "\<dots> = (case map_of (userRows ws) u of None \<Rightarrow> users db u | Some n \<Rightarrow> Some n)"
    by (rule fold_upsert_user [OF userRows_distinct])
  finally show ?thesis
    by (simp add: userRows_map_of split: option.splits)
qed

text \<open>
  C10. \<^verbatim>\<open>insertUsers\<close> hands one statement to the store, with at most one row per
  \<open>userId\<close>: the user ids of the rows are distinct and are those of the batch, the
  username in the row of a user is that of the first record of the batch with that
  user, and it is the username the table holds afterwards.
\<close>

theorem insertUsers_first_username:
  "distinct (map fst (userRows ws))
   \<and> fst ` set (userRows ws) = userId ` set ws
   \<and> map_of (userRows ws) u = map_option username (find (\<lambda>w. userId w = u) ws)
   \<and> journal (insertUsers ws db) = journal db @ [UpsertUsers (userRows ws)]
   \<and> users (insertUsers ws db) u =
       (case find (\<lambda>w. userId w = u) ws of None \<Rightarrow> users db u | Some w \<Rightarrow> Some (username w))"
proof -
  have "fst ` set (userRows ws) = userId ` set (first_occurrences userId ws)"
    by (simp add: userRows_eq image_image)
  then have keys: "fst ` set (userRows ws) = userId ` set ws"
    by (simp only: first_occurrences_keys)
  have jr: "journal (insertUsers ws db) = journal db @ [UpsertUsers (userRows ws)]"
    by (simp add: insertUsers_def query_def)
  show ?thesis
    using userRows_distinct [of ws] keys userRows_map_of [of ws u] jr users_insertUsers [of ws db u]
    by blast
qed

section \<open>Properties of the pagination loop\<close>

lemma resolved_eq: "resolved src st = map (fetched src) (burst_pages st)"
  by (simp add: resolved_def fetched_def)

lemma track_burst_fields [simp]:
  "wrs (track_burst r st) = wrs st"
  "timeIds (track_burst r st) = timeIds st"
  "page (track_burst r st) = page st"
  "hasMore (track_burst r st) = hasMore st"
  "events (track_burst r st) = events st"
  "console (track_burst r st) = console st"
  by (simp_all add: track_burst_def split: option.splits)

lemma track_burst_remaining:
  "burstRemaining (track_burst r st) =
     (case rate_limit_burst r of None \<Rightarrow> burstRemaining st | Some n \<Rightarrow> min n (burstRemaining st))"
  by (simp add: track_burst_def min_def split: option.splits)

lemma process_response_fields [simp]:
  "page (process_response resp st) = page st"
  "events (process_response resp st) = events st"
  "console (process_response resp st) = console st"
  by (simp_all add: process_response_def split: option.splits)

lemma fold_process_fields [simp]:
  "page (fold process_response rs st) = page st"
  "events (fold process_response rs st) = events st"
  "console (fold process_response rs st) = console st"
  by (induction rs arbitrary: st) simp_all

lemma fold_process_wrs:
  "(wrs (fold process_response (map (fetched src) ps) st),
    timeIds (fold process_response (map (fetched src) ps) st))
   = collect (pages_data src ps) (wrs st, timeIds st)"
proof (induction ps arbitrary: st)
  case Nil
  show ?case by (simp add: pages_data_def)
next
  case (Cons p ps)
  have step: "(wrs (process_response (fetched src p) st), timeIds (process_response (fetched src p) st))
              = collect (page_data src p) (wrs st, timeIds st)"
    by (simp add: process_response_def page_data_def split: option.splits)
  have "pages_data src (p # ps) = page_data src p @ pages_data src ps"
    by (simp add: pages_data_def)
  then show ?case
    using Cons [of "process_response (fetched src p) st"] step by simp
qed

lemma fold_process_hasMore:
  "hasMore (fold process_response (map (fetched src) ps) st)
   = (hasMore st \<and> \<not> list_ex (page_empty src) ps)"
proof (induction ps arbitrary: st)
  case Nil
  show ?case by simp
next
  case (Cons p ps)
  have "hasMore (process_response (fetched src p) st) = (hasMore st \<and> \<not> page_empty src p)"
    by (simp add: process_response_def page_empty_def split: option.splits)
  then show ?case
    using Cons [of "process_response (fetched src p) st"] by auto
qed

lemma fold_process_remaining:
  "burstRemaining (fold process_response (map (fetched src) ps) st)
   = fold min (List.map_filter (page_reported src) ps) (burstRemaining st)"
proof (induction ps arbitrary: st)
  case Nil
  show ?case by (simp add: map_filter_simps)
next
  case (Cons p ps)
  have "burstRemaining (process_response (fetched src p) st)
        = (case page_reported src p of None \<Rightarrow> burstRemaining st
           | Some n \<Rightarrow> min n (burstRemaining st))"
    by (simp add: process_response_def page_reported_def track_burst_remaining
        split: option.splits)
  then show ?case
    using Cons [of "process_response (fetched src p) st"]
    by (simp add: map_filter_simps split: option.splits)
qed

lemma fold_min_Min:
  "xs \<noteq> [] \<Longrightarrow> fold min xs (b::int) = min (Min (set xs)) b"
proof (induction xs arbitrary: b)
  case Nil
  then show ?case by simp
next
  case (Cons x xs)
  show ?case
  proof (cases "xs = []")
    case True
    then show ?thesis by simp
  next
    case False
    then show ?thesis using Cons.IH [of "min x b"]
      by (simp add: min.assoc min.commute min.left_commute)
  qed
qed

lemma burst_page [simp]: "page (burst src st) = page st + 5"
  by (simp add: burst_def)

lemma burst_events [simp]:
  "events (burst src st) = events st @ map Request (burst_pages st)"
  by (simp add: burst_def)

lemma burst_wrs:
  "(wrs (burst src st), timeIds (burst src st))
   = collect (pages_data src (burst_pages st)) (wrs st, timeIds st)"
  unfolding burst_def resolved_eq by (simp add: fold_process_wrs)

lemma burst_hasMore:
  "hasMore (burst src st) = (hasMore st \<and> \<not> list_ex (page_empty src) (burst_pages st))"
  unfolding burst_def resolved_eq by (simp add: fold_process_hasMore)

lemma burst_remaining:
  "burstRemaining (burst src st) =
     (case round_min src (burst_pages st) of
        None \<Rightarrow> burstRemaining st
      | Some m \<Rightarrow> min m (burstRemaining st))"
proof -
  have "burstRemaining (burst src st)
        = fold min (List.map_filter (page_reported src) (burst_pages st)) (burstRemaining st)"
    unfolding burst_def resolved_eq by (simp add: fold_process_remaining)
  also have "\<dots> = (case round_min src (burst_pages st) of
        None \<Rightarrow> burstRemaining st
      | Some m \<Rightarrow> min m (burstRemaining st))"
  proof (cases "List.map_filter (page_reported src) (burst_pages st)")
    case Nil
    then show ?thesis by (simp add: round_min_def)
  next
    case (Cons a list)
    have "fold min (a # list) (burstRemaining st) = min (Min (set (a # list))) (burstRemaining st)"
      by (rule fold_min_Min) simp
    then show ?thesis
      unfolding round_min_def Cons by simp
  qed
  finally show ?thesis .
qed

lemma burst_pages_upt: "burst_pages st = [page st..<page st + 5]"
proof -
  have "map (\<lambda>i. i + page st) [0..<5] = [page st..<5 + page st]"
    by (rule map_add_upt)
  then show ?thesis
    by (simp add: burst_pages_def add.commute)
qed

lemma upt_next_burst: "Suc 0 \<le> p \<Longrightarrow> [Suc 0..<p + 5] = [Suc 0..<p] @ [p..<p + 5]"
  by (rule upt_add_eq_append)

lemma request_pages_append [simp]:
  "request_pages (es @ es') = request_pages es @ request_pages es'"
  by (induction es rule: request_pages.induct) simp_all

lemma request_pages_map [simp]: "request_pages (map Request ps) = ps"
  by (induction ps) simp_all

lemma cooldown_fields [simp]:
  "wrs (cooldown st) = wrs st"
  "timeIds (cooldown st) = timeIds st"
  "page (cooldown st) = page st"
  "hasMore (cooldown st) = hasMore st"
  "request_pages (events (cooldown st)) = request_pages (events st)"
  by (simp_all add: cooldown_def)

lemma cooldown_remaining: "70 \<le> burstRemaining (cooldown st)"
  by (simp add: cooldown_def)

lemma loop_body_page [simp]: "page (loop_body src st) = page st + 5"
  by (simp add: loop_body_def)

lemma loop_body_hasMore: "hasMore (loop_body src st) = hasMore (burst src st)"
  by (simp add: loop_body_def)

lemma loop_body_wrs:
  "(wrs (loop_body src st), timeIds (loop_body src st))
   = collect (pages_data src (burst_pages st)) (wrs st, timeIds st)"
  using burst_wrs [of src st] by (simp add: loop_body_def)

lemma loop_body_requests:
  "request_pages (events (loop_body src st)) = request_pages (events st) @ burst_pages st"
  by (simp add: loop_body_def)

lemma rounds_invariant:
  assumes "P st" and "\<And>s. P s \<Longrightarrow> hasMore s \<Longrightarrow> P (loop_body src s)"
  shows "P (rounds n src st)"
  using assms(1)
proof (induction n arbitrary: st)
  case 0
  then show ?case by simp
next
  case (Suc n)
  then show ?case using assms(2) by simp
qed

lemma pages_data_append [simp]:
  "pages_data src (ps @ ps') = pages_data src ps @ pages_data src ps'"
  by (simp add: pages_data_def)

lemma rounds_wrs:
  "1 \<le> page (rounds n src loadAllWRs_init)
   \<and> (wrs (rounds n src loadAllWRs_init), timeIds (rounds n src loadAllWRs_init))
     = collect (pages_data src [1..<page (rounds n src loadAllWRs_init)]) ([], {})"
proof (rule rounds_invariant)
  show "1 \<le> page loadAllWRs_init \<and> (wrs loadAllWRs_init, timeIds loadAllWRs_init)
        = collect (pages_data src [1..<page loadAllWRs_init]) ([], {})"
    by (simp add: loadAllWRs_init_def pages_data_def)
next
  fix s :: LoopState
  assume inv: "1 \<le> page s \<and> (wrs s, timeIds s) = collect (pages_data src [1..<page s]) ([], {})"
  have "collect (pages_data src [1..<page s + 5]) ([], {})
        = collect (pages_data src (burst_pages s)) (collect (pages_data src [1..<page s]) ([], {}))"
    using inv by (simp add: upt_next_burst burst_pages_upt)
  then show "1 \<le> page (loop_body src s) \<and> (wrs (loop_body src s), timeIds (loop_body src s))
        = collect (pages_data src [1..<page (loop_body src s)]) ([], {})"
    using inv by (simp add: loop_body_wrs)
qed

lemma rounds_requests:
  "1 \<le> page (rounds n src loadAllWRs_init)
   \<and> request_pages (events (rounds n src loadAllWRs_init))
     = [1..<page (rounds n src loadAllWRs_init)]"
proof (rule rounds_invariant)
  show "1 \<le> page loadAllWRs_init
        \<and> request_pages (events loadAllWRs_init) = [1..<page loadAllWRs_init]"
    by (simp add: loadAllWRs_init_def)
next
  fix s :: LoopState
  assume "1 \<le> page s \<and> request_pages (events s) = [1..<page s]"
  then show "1 \<le> page (loop_body src s)
        \<and> request_pages (events (loop_body src s)) = [1..<page (loop_body src s)]"
    by (simp add: loop_body_requests upt_next_burst burst_pages_upt)
qed

lemma rounds_hasMore:
  "1 \<le> page (rounds n src loadAllWRs_init)
   \<and> hasMore (rounds n src loadAllWRs_init)
     = (\<not> list_ex (page_empty src) [1..<page (rounds n src loadAllWRs_init)])"
proof (rule rounds_invariant)
  show "1 \<le> page loadAllWRs_init
        \<and> hasMore loadAllWRs_init = (\<not> list_ex (page_empty src) [1..<page loadAllWRs_init])"
    by (simp add: loadAllWRs_init_def)
next
  fix s :: LoopState
  assume "1 \<le> page s \<and> hasMore s = (\<not> list_ex (page_empty src) [1..<page s])"
  then show "1 \<le> page (loop_body src s)
        \<and> hasMore (loop_body src s) = (\<not> list_ex (page_empty src) [1..<page (loop_body src s)])"
    by (simp add: loop_body_hasMore burst_hasMore upt_next_burst burst_pages_upt)
qed

lemma rounds_remaining:
  "hasMore (rounds n src loadAllWRs_init) \<longrightarrow> 70 \<le> burstRemaining (rounds n src loadAllWRs_init)"
proof (rule rounds_invariant)
  show "hasMore loadAllWRs_init \<longrightarrow> 70 \<le> burstRemaining loadAllWRs_init"
    by (simp add: loadAllWRs_init_def)
next
  fix s :: LoopState
  show "hasMore (loop_body src s) \<longrightarrow> 70 \<le> burstRemaining (loop_body src s)"
    by (simp add: loop_body_def cooldown_remaining)
qed

lemma rounds_page:
  "hasMore (rounds n src st) \<Longrightarrow> page (rounds n src st) = page st + 5 * n"
proof (induction n arbitrary: st)
  case 0
  show ?case by simp
next
  case (Suc n)
  show ?case
  proof (cases "hasMore st")
    case True
    then show ?thesis using Suc.IH [of "loop_body src st"] Suc.prems by simp
  next
    case False
    then show ?thesis using Suc.prems by simp
  qed
qed

lemma while_hasMore_rounds:
  "\<not> hasMore (rounds n src st) \<Longrightarrow> while_hasMore src st = Some (rounds n src st)"
proof (induction n arbitrary: st)
  case 0
  then show ?case by (simp add: while_hasMore.simps)
next
  case (Suc n)
  show ?case
  proof (cases "hasMore st")
    case True
    then have "while_hasMore src st = while_hasMore src (loop_body src st)"
      by (subst while_hasMore.simps) simp
    then show ?thesis using True Suc.IH [of "loop_body src st"] Suc.prems by simp
  next
    case False
    then show ?thesis by (simp add: while_hasMore.simps)
  qed
qed

lemma while_hasMore_Some:
  assumes "while_hasMore src st = Some st'"
  shows "\<exists>n. st' = rounds n src st \<and> \<not> hasMore st'"
proof (rule while_hasMore.raw_induct [OF _ assms])
  fix f :: "Source \<Rightarrow> LoopState \<Rightarrow> LoopState option" and src st st'
  assume IH: "\<And>src st st'. f src st = Some st' \<Longrightarrow> \<exists>n. st' = rounds n src st \<and> \<not> hasMore st'"
    and body: "(if hasMore st then f src (loop_body src st) else Some st) = Some st'"
  show "\<exists>n. st' = rounds n src st \<and> \<not> hasMore st'"
  proof (cases "hasMore st")
    case True
    then have "f src (loop_body src st) = Some st'"
      using body by simp
    then obtain n where "st' = rounds n src (loop_body src st)" "\<not> hasMore st'"
      using IH by blast
    then have "st' = rounds (Suc n) src st \<and> \<not> hasMore st'"
      using True by simp
    then show ?thesis by blast
  next
    case False
    then have "st' = rounds 0 src st \<and> \<not> hasMore st'"
      using body by simp
    then show ?thesis by blast
  qed
qed

lemma rounds_Suc_end:
  "hasMore (rounds n src st) \<Longrightarrow> rounds (Suc n) src st = loop_body src (rounds n src st)"
proof (induction n arbitrary: st)
  case 0
  then show ?case by simp
next
  case (Suc n)
  show ?case
  proof (cases "hasMore st")
    case True
    then show ?thesis using Suc.IH [of "loop_body src st"] Suc.prems by simp
  next
    case False
    then show ?thesis using Suc.prems by simp
  qed
qed

lemma rounds_requests_distinct:
  "distinct (request_pages (events (rounds n src loadAllWRs_init)))"
  using rounds_requests [of n src] by simp

text \<open>
  C8. A burst advances the cursor by five whatever the five fetches return, and its
  requests are for the five pages from the old cursor on. So after any number of rounds of
  any run the pages requested are exactly \<open>1, 2, ..., page - 1\<close>, each once; and when
  the run returns, no page has been requested twice.
\<close>

theorem pages_requested_at_most_once:
  "page (burst src st) = page st + 5
   \<and> request_pages (events (burst src st)) = request_pages (events st) @ [page st..<page st + 5]
   \<and> request_pages (events (rounds n src loadAllWRs_init))
       = [1..<page (rounds n src loadAllWRs_init)]
   \<and> distinct (request_pages (events (rounds n src loadAllWRs_init)))
   \<and> (case while_hasMore src loadAllWRs_init of
         None \<Rightarrow> True
       | Some st' \<Rightarrow> distinct (request_pages (events st')))"
proof -
  have a: "request_pages (events (burst src st)) = request_pages (events st) @ [page st..<page st + 5]"
    by (simp add: burst_pages_upt)
  have b: "request_pages (events (rounds n src loadAllWRs_init))
           = [1..<page (rounds n src loadAllWRs_init)]"
    using rounds_requests [of n src] by simp
  have c: "(case while_hasMore src loadAllWRs_init of
         None \<Rightarrow> True
       | Some st' \<Rightarrow> distinct (request_pages (events st')))"
  proof (cases "while_hasMore src loadAllWRs_init")
    case None
    then show ?thesis by simp
  next
    case (Some st')
    then obtain m where "st' = rounds m src loadAllWRs_init"
      using while_hasMore_Some by blast
    then show ?thesis using Some rounds_requests_distinct [of m src] by simp
  qed
  show ?thesis
    using a b c rounds_requests_distinct [of n src] burst_page [of src st] by blast
qed

lemma rounds_ids:
  "timeIds (rounds n src loadAllWRs_init) = timeId ` set (wrs (rounds n src loadAllWRs_init))"
proof -
  let ?st = "rounds n src loadAllWRs_init"
  let ?d = "pages_data src [1..<page ?st]"
  have "(wrs ?st, timeIds ?st) = (map toRecord (first_occurrences t_id ?d), t_id ` set ?d)"
    using rounds_wrs [of n src] by (simp only: collect_empty)
  then have w: "wrs ?st = map toRecord (first_occurrences t_id ?d)" and t: "timeIds ?st = t_id ` set ?d"
    by simp_all
  have "timeId ` set (wrs ?st) = t_id ` set (first_occurrences t_id ?d)"
    by (simp add: w image_image)
  then show ?thesis
    by (simp only: t first_occurrences_keys)
qed

lemma collect_ids:
  "timeId ` set (fst (collect rs (w, t))) = timeId ` set w \<union> t_id ` set (filter (\<lambda>x. t_id x \<notin> t) rs)"
proof -
  have "timeId ` set (map toRecord (first_occurrences t_id (filter (\<lambda>x. t_id x \<notin> t) rs)))
        = t_id ` set (first_occurrences t_id (filter (\<lambda>x. t_id x \<notin> t) rs))"
    by (simp add: image_image)
  then have "timeId ` set (map toRecord (first_occurrences t_id (filter (\<lambda>x. t_id x \<notin> t) rs)))
        = t_id ` set (filter (\<lambda>x. t_id x \<notin> t) rs)"
    by (simp only: first_occurrences_keys)
  then show ?thesis
    by (simp add: collect_eq image_Un)
qed

lemma page_data_in_burst:
  "j < 5 \<Longrightarrow> set (page_data src (page st + j)) \<subseteq> set (pages_data src (burst_pages st))"
proof -
  assume "j < 5"
  then have "page st + j \<in> set (burst_pages st)"
    by (simp add: burst_pages_upt)
  then show ?thesis
    unfolding pages_data_def by auto
qed

text \<open>
  C9. In any round of any run, when a page of the burst resolves with zero records and
  a later page of the same burst resolves with records, the round still scans all five
  pages: the batch after the round is the batch before it extended by the deduplicated
  records of the five pages, every record of the later page has its id in the batch, a
  record whose id was not seen before the round is a new element of the batch, and the
  run returns this batch without issuing another burst.
\<close>

theorem empty_page_keeps_later_pages:
  assumes "st = rounds n src loadAllWRs_init" and "hasMore st"
    and "i < j" and "j < 5" and "page_empty src (page st + i)"
    and "src (page st + j) = Resolved r" and "x \<in> set (data r)"
  shows "wrs (loop_body src st)
           = fst (collect (pages_data src [page st..<page st + 5]) (wrs st, timeIds st))
       \<and> t_id x \<in> timeId ` set (wrs (loop_body src st))
       \<and> (t_id x \<in> timeIds st \<or> (\<exists>w \<in> set (wrs (loop_body src st)) - set (wrs st). timeId w = t_id x))
       \<and> \<not> hasMore (loop_body src st)
       \<and> loadAllWRs src = Some (wrs (loop_body src st))"
proof -
  let ?d = "pages_data src (burst_pages st)"
  have w: "wrs (loop_body src st) = fst (collect ?d (wrs st, timeIds st))"
    using loop_body_wrs [of src st] by (metis fst_conv)
  have ids: "timeIds st = timeId ` set (wrs st)"
    unfolding assms(1) by (rule rounds_ids)
  have "page_data src (page st + j) = data r"
    using assms(6) by (simp add: page_data_def fetched_def tryGetStrafes_def tryGetRequest_def)
  then have xin: "x \<in> set ?d"
    using page_data_in_burst [OF assms(4), of src st] assms(7) by auto
  have all: "timeId ` set (wrs (loop_body src st))
             = timeId ` set (wrs st) \<union> t_id ` set (filter (\<lambda>x. t_id x \<notin> timeIds st) ?d)"
    unfolding w by (rule collect_ids)
  have mem: "t_id x \<in> timeId ` set (wrs (loop_body src st))"
  proof (cases "t_id x \<in> timeIds st")
    case True
    then show ?thesis using all ids by simp
  next
    case False
    then have "t_id x \<in> t_id ` set (filter (\<lambda>x. t_id x \<notin> timeIds st) ?d)"
      using xin by auto
    then show ?thesis using all by simp
  qed
  have new: "t_id x \<in> timeIds st \<or> (\<exists>w \<in> set (wrs (loop_body src st)) - set (wrs st). timeId w = t_id x)"
  proof (cases "t_id x \<in> timeIds st")
    case True
    then show ?thesis by simp
  next
    case False
    obtain w where "w \<in> set (wrs (loop_body src st))" "timeId w = t_id x"
      using mem by auto
    moreover have "w \<notin> set (wrs st)"
      using False ids \<open>timeId w = t_id x\<close> by (metis image_eqI)
    ultimately show ?thesis by auto
  qed
  have "i < 5" using assms(3,4) by simp
  then have "page st + i \<in> set (burst_pages st)"
    by (simp add: burst_pages_upt)
  then have "list_ex (page_empty src) (burst_pages st)"
    using assms(5) by (auto simp: list_ex_iff)
  then have stop: "\<not> hasMore (loop_body src st)"
    by (simp add: loop_body_hasMore burst_hasMore)
  have "rounds (Suc n) src loadAllWRs_init = loop_body src st"
    using assms(1,2) by (simp only: rounds_Suc_end)
  then have "while_hasMore src loadAllWRs_init = Some (loop_body src st)"
    using while_hasMore_rounds [of "Suc n" src loadAllWRs_init] stop by simp
  then have ret: "loadAllWRs src = Some (wrs (loop_body src st))"
    by (simp add: loadAllWRs_def)
  show ?thesis
    using w mem new stop ret by (simp add: burst_pages_upt)
qed

lemma rounds_all_hasMore:
  "(\<And>p. 1 \<le> p \<Longrightarrow> p < 5 * n + 1 \<Longrightarrow> \<not> page_empty src p) \<Longrightarrow>
     hasMore (rounds n src loadAllWRs_init) \<and> page (rounds n src loadAllWRs_init) = 5 * n + 1"
proof (induction n)
  case 0
  show ?case by (simp add: loadAllWRs_init_def)
next
  case (Suc n)
  have prev: "hasMore (rounds n src loadAllWRs_init)" "page (rounds n src loadAllWRs_init) = 5 * n + 1"
    using Suc by simp_all
  have next_round: "rounds (Suc n) src loadAllWRs_init = loop_body src (rounds n src loadAllWRs_init)"
    using prev(1) by (rule rounds_Suc_end)
  have pg: "page (rounds (Suc n) src loadAllWRs_init) = 5 * Suc n + 1"
    unfolding next_round using prev(2) by simp
  have "\<not> list_ex (page_empty src) [1..<5 * Suc n + 1]"
    using Suc.prems by (auto simp: list_ex_iff)
  then have "hasMore (rounds (Suc n) src loadAllWRs_init)"
    using rounds_hasMore [of "Suc n" src] pg by simp
  then show ?case using pg by simp
qed

lemma example_nonempty: "p < 7 \<Longrightarrow> \<not> page_empty example_source p"
  by (simp add: page_empty_def fetched_def example_source_def tryGetStrafes_def tryGetRequest_def)

lemma example_empty: "page_empty example_source 7"
  by (simp add: page_empty_def fetched_def example_source_def tryGetStrafes_def tryGetRequest_def)

lemma page_empty_Resolved: "src p = Resolved r \<Longrightarrow> page_empty src p = (data r = [])"
  by (simp add: page_empty_def fetched_def tryGetStrafes_def tryGetRequest_def)

lemma page_data_Resolved: "src p = Resolved r \<Longrightarrow> page_data src p = data r"
  by (simp add: page_data_def fetched_def tryGetStrafes_def tryGetRequest_def)

lemma example_round1:
  "hasMore (rounds 1 example_source loadAllWRs_init) \<and> page (rounds 1 example_source loadAllWRs_init) = 6"
  using rounds_all_hasMore [of 1 example_source] example_nonempty by (simp del: rounds.simps One_nat_def)

theorem empty_page_keeps_later_pages_witness:
  "t_id (example_time 8) \<in> timeId ` set (wrs (loop_body example_source (rounds 1 example_source loadAllWRs_init)))
   \<and> \<not> hasMore (loop_body example_source (rounds 1 example_source loadAllWRs_init))
   \<and> loadAllWRs example_source
       = Some (wrs (loop_body example_source (rounds 1 example_source loadAllWRs_init)))"
proof -
  let ?st = "rounds 1 example_source loadAllWRs_init"
  have more: "hasMore ?st" and pg: "page ?st = 6"
    using example_round1 by blast+
  have empty: "page_empty example_source (page ?st + 1)"
    unfolding pg using example_empty by simp
  have later: "example_source (page ?st + 2) = Resolved \<lparr> rate_limit_burst = Some 50, data = [example_time 8] \<rparr>"
    unfolding pg by (simp add: example_source_def)
  have "(1::nat) < 2" and "(2::nat) < 5" and "example_time 8 \<in> set (data \<lparr> rate_limit_burst = Some 50, data = [example_time 8] \<rparr>)"
    by simp_all
  from empty_page_keeps_later_pages [OF refl more this(1,2) empty later this(3)]
  show ?thesis by blast
qed

text \<open>
  C1. When the source resolves page \<open>K\<close> with zero records and every page before it
  with at least one record, \<^verbatim>\<open>loadAllWRs\<close> returns. The batch it returns has distinct
  ids, begins with the deduplicated records of the pages \<open>1, ..., K - 1\<close> in arrival
  order, and holds exactly one record for the id of every record of those pages.
\<close>

theorem loadAllWRs_returns_pages_before_empty:
  assumes K1: "1 \<le> K" and KR: "src K = Resolved rK" and KE: "data rK = []"
    and before: "\<And>k. 1 \<le> k \<Longrightarrow> k < K \<Longrightarrow> \<exists>r. src k = Resolved r \<and> data r \<noteq> []"
  shows "\<exists>ws. loadAllWRs src = Some ws
      \<and> distinct (map timeId ws)
      \<and> prefix (map toRecord (first_occurrences t_id (pages_data src [1..<K]))) ws
      \<and> (\<forall>k r x. 1 \<le> k \<and> k < K \<and> src k = Resolved r \<and> x \<in> set (data r)
            \<longrightarrow> length (filter (\<lambda>w. timeId w = t_id x) ws) = 1)"
proof -
  define b where "b = (K - 1) div 5"
  have bK: "5 * b + 1 \<le> K" "K < 5 * b + 6"
    using K1 unfolding b_def by arith+
  have empty: "page_empty src K"
    using KR KE by (simp add: page_empty_Resolved)
  have nonempty: "\<not> page_empty src p" if "1 \<le> p" "p < K" for p
    using before [OF that] by (auto simp: page_empty_Resolved)
  have hb: "hasMore (rounds b src loadAllWRs_init)" "page (rounds b src loadAllWRs_init) = 5 * b + 1"
    using rounds_all_hasMore [of b src] nonempty bK(1) by simp_all
  define st where "st = rounds (Suc b) src loadAllWRs_init"
  have nx: "st = loop_body src (rounds b src loadAllWRs_init)"
    unfolding st_def using hb(1) by (rule rounds_Suc_end)
  have pg: "page st = 5 * b + 6"
    unfolding nx using hb(2) by simp
  have "K \<in> set [1..<5 * b + 6]"
    using K1 bK(2) by simp
  then have "list_ex (page_empty src) [1..<5 * b + 6]"
    using empty unfolding list_ex_iff by blast
  then have stop: "\<not> hasMore st"
    using rounds_hasMore [of "Suc b" src] pg unfolding st_def by (simp del: rounds.simps)
  have "while_hasMore src loadAllWRs_init = Some st"
    using stop unfolding st_def by (rule while_hasMore_rounds)
  then have ret: "loadAllWRs src = Some (wrs st)"
    by (simp add: loadAllWRs_def)
  let ?d1 = "pages_data src [1..<K]" and ?d2 = "pages_data src [K..<5 * b + 6]"
  have "[1..<K + (5 * b + 6 - K)] = [1..<K] @ [K..<K + (5 * b + 6 - K)]"
    using K1 by (rule upt_add_eq_append)
  then have "[1..<5 * b + 6] = [1..<K] @ [K..<5 * b + 6]"
    using bK(2) by simp
  then have "pages_data src [1..<5 * b + 6] = ?d1 @ ?d2"
    by (simp only: pages_data_append)
  then have st_eq: "(wrs st, timeIds st) = collect (?d1 @ ?d2) ([], {})"
    using rounds_wrs [of "Suc b" src] pg unfolding st_def by (simp del: rounds.simps)
  have whole: "wrs st = map toRecord (first_occurrences t_id (?d1 @ ?d2))"
    using st_eq by (simp only: collect_empty prod.inject)
  have "collect (?d1 @ ?d2) ([], {}) = collect ?d2 (collect ?d1 ([], {}))"
    by (rule collect_append)
  then have "collect (?d1 @ ?d2) ([], {}) = collect ?d2 (map toRecord (first_occurrences t_id ?d1), t_id ` set ?d1)"
    by (simp only: collect_empty [of ?d1])
  then have "wrs st = map toRecord (first_occurrences t_id ?d1)
         @ map toRecord (first_occurrences t_id (filter (\<lambda>x. t_id x \<notin> t_id ` set ?d1) ?d2))"
    using st_eq by (simp add: collect_eq [of ?d2])
  then have pre: "prefix (map toRecord (first_occurrences t_id ?d1)) (wrs st)"
    by simp
  have "map timeId (wrs st) = map t_id (first_occurrences t_id (?d1 @ ?d2))"
    by (simp add: whole)
  then have dist: "distinct (map timeId (wrs st))"
    by (simp only: first_occurrences_distinct)
  have "timeId ` set (wrs st) = t_id ` set (first_occurrences t_id (?d1 @ ?d2))"
    by (simp add: whole image_image)
  then have ids: "timeId ` set (wrs st) = t_id ` set (?d1 @ ?d2)"
    by (simp only: first_occurrences_keys)
  have once: "length (filter (\<lambda>w. timeId w = t_id x) (wrs st)) = 1"
    if "1 \<le> k" "k < K" "src k = Resolved r" "x \<in> set (data r)" for k r x
  proof -
    have "x \<in> set (page_data src k)"
      using that(3,4) by (simp add: page_data_Resolved)
    moreover have "k \<in> set [1..<K]"
      using that(1,2) by simp
    ultimately have "x \<in> set ?d1"
      unfolding pages_data_def by auto
    then have "t_id x \<in> timeId ` set (wrs st)"
      unfolding ids by simp
    then show ?thesis
      using count_key_distinct [OF dist, of "t_id x"] by simp
  qed
  show ?thesis
    using ret dist pre once by blast
qed

theorem loadAllWRs_returns_pages_before_empty_witness:
  "\<exists>ws. loadAllWRs example_source = Some ws
      \<and> distinct (map timeId ws)
      \<and> prefix (map toRecord (first_occurrences t_id (pages_data example_source [1..<7]))) ws
      \<and> (\<forall>k r x. 1 \<le> k \<and> k < 7 \<and> example_source k = Resolved r \<and> x \<in> set (data r)
            \<longrightarrow> length (filter (\<lambda>w. timeId w = t_id x) ws) = 1)"
proof (rule loadAllWRs_returns_pages_before_empty)
  show "1 \<le> (7::nat)" by simp
  show "example_source 7 = Resolved \<lparr> rate_limit_burst = Some 50, data = [] \<rparr>"
    by (simp add: example_source_def)
  show "data \<lparr> rate_limit_burst = Some 50, data = [] \<rparr> = []" by simp
  show "\<exists>r. example_source k = Resolved r \<and> data r \<noteq> []" if "1 \<le> k" "k < 7" for k
    using that by (simp add: example_source_def)
qed

text \<open>
  C5. In any round of any run after which another round is issued: when the minimum
  remaining capacity reported by the responses of the round is below 70, the round ends
  with a sleep of 60000 ms after its five requests and leaves the tracker at 999; when it
  is not below 70 (or no response reports one), the round ends with its five requests
  and no sleep. The requests of the next round follow. (The round that sees an empty page
  is the last one: the loop is left before the check.)
\<close>

theorem cooldown_after_round_below_70:
  assumes "st = rounds n src loadAllWRs_init" and "hasMore st" and "hasMore (burst src st)"
  shows "(below_threshold (round_min src (burst_pages st)) \<longrightarrow>
            events (loop_body src st) = events st @ map Request (burst_pages st) @ [Sleep 60000]
            \<and> burstRemaining (loop_body src st) = 999)
       \<and> (\<not> below_threshold (round_min src (burst_pages st)) \<longrightarrow>
            events (loop_body src st) = events st @ map Request (burst_pages st))
       \<and> events (burst src (loop_body src st))
           = events (loop_body src st) @ map Request (burst_pages (loop_body src st))"
proof -
  have br: "70 \<le> burstRemaining st"
    using rounds_remaining [of n src] assms(1,2) by simp
  have iff: "(burstRemaining (burst src st) < 70) = below_threshold (round_min src (burst_pages st))"
    using br by (auto simp: burst_remaining below_threshold_def min_def split: option.splits)
  have "loop_body src st = cooldown (burst src st)"
    using assms(3) by (simp add: loop_body_def)
  then show ?thesis
    using iff by (simp add: cooldown_def)
qed

lemma example_reported: "p < 9 \<Longrightarrow> page_reported example_source p = Some 50"
  by (simp add: page_reported_def fetched_def example_source_def tryGetStrafes_def tryGetRequest_def)

theorem cooldown_after_round_below_70_witness:
  "round_min example_source (burst_pages loadAllWRs_init) = Some 50
   \<and> events (loop_body example_source loadAllWRs_init)
       = [Request 1, Request 2, Request 3, Request 4, Request 5, Sleep 60000]
   \<and> burstRemaining (loop_body example_source loadAllWRs_init) = 999"
proof -
  have pages: "burst_pages loadAllWRs_init = [1, 2, 3, 4, 5]"
    by (simp add: burst_pages_def loadAllWRs_init_def upt_rec)
  have more: "hasMore loadAllWRs_init"
    by (simp add: loadAllWRs_init_def)
  have more': "hasMore (burst example_source loadAllWRs_init)"
    using more by (simp add: burst_hasMore pages example_nonempty)
  have rm: "round_min example_source (burst_pages loadAllWRs_init) = Some 50"
    by (simp add: round_min_def pages map_filter_simps example_reported)
  have "loadAllWRs_init = rounds 0 example_source loadAllWRs_init"
    by simp
  from cooldown_after_round_below_70 [OF this more more']
  have "events (loop_body example_source loadAllWRs_init)
          = events loadAllWRs_init @ map Request (burst_pages loadAllWRs_init) @ [Sleep 60000]
        \<and> burstRemaining (loop_body example_source loadAllWRs_init) = 999"
    using rm by (simp add: below_threshold_def)
  moreover have "events loadAllWRs_init = []"
    by (simp add: loadAllWRs_init_def)
  ultimately show ?thesis
    using rm by (simp add: pages)
qed

section \<open>Properties of the reconciliation\<close>

lemma fetched_Resolved: "src p = Resolved r \<Longrightarrow> fetched src p = Some r"
  by (simp add: fetched_def tryGetStrafes_def tryGetRequest_def)









lemma insertUsers_fields [simp]:
  "maps (insertUsers ws db) = maps db"
  "globals (insertUsers ws db) = globals db"
  by (simp_all add: insertUsers_def query_def)



lemma query_fields [simp]:
  "journal (query stmt db) = journal db @ [stmt]"
  "users (query (UpsertGlobals rows) db) = users db"
  "maps (query (UpsertGlobals rows) db) = maps db"
  "users (query (InsertMaps ms) db) = users db"
  "users (query TruncateMaps db) = users db"
  "maps (query (InsertMaps ms) (query TruncateMaps db)) = ms"
  "globals (query (InsertMaps ms) db) = globals db"
  "globals (query TruncateMaps db) = globals db"
  "globals (query (UpsertGlobals rows) db) = fold upsert_row rows (globals db)"
  by (simp_all add: query_def)

lemma journal_insertUsers [simp]:
  "journal (insertUsers ws db) = journal db @ [UpsertUsers (userRows ws)]"
  by (simp add: insertUsers_def)













text \<open>
  C6 as stated fails in refresh mode: when the fetch of the page fails, the run ends with
  exit code 1.
\<close>

theorem failed_fetch_fails_refresh:
  "fst (tryGetStrafes (failing_source 1)) = None
   \<and> main Refresh failing_source example_map_source example_thumb_source example_db
       = Some (1, example_db)"
  by (simp add: main_def refreshWRs_def failing_source_def tryGetStrafes_def tryGetRequest_def)

text \<open>
  C6, as the code has it. A rejected request is a value: \<^verbatim>\<open>tryGetRequest\<close> logs the
  cause and returns \<^verbatim>\<open>undefined\<close>. The pagination loop skips such a response without
  changing its state, the page contributes no records and does not count as the empty
  page; \<^verbatim>\<open>refreshWRs\<close> returns \<^verbatim>\<open>false\<close> with the store untouched, and the run
  exits with code 1.
\<close>

theorem fetch_failure_is_a_value:
  "tryGetRequest (Rejected err) = (None, [err])
   \<and> process_response (fst (tryGetStrafes (Rejected err))) st = st
   \<and> page_data (src(p := Rejected err)) p = []
   \<and> \<not> page_empty (src(p := Rejected err)) p
   \<and> refreshWRs (src(1 := Rejected err)) msrc tsrc db = Some (False, db)
   \<and> main Refresh (src(1 := Rejected err)) msrc tsrc db = Some (1, db)"
  by (simp add: main_def refreshWRs_def tryGetStrafes_def tryGetRequest_def process_response_def
      page_data_def page_empty_def fetched_def)

section \<open>Properties of the writes\<close>
















text \<open>The second upsert of the same batch overwrites slot by slot.\<close>

lemma slot_put_slot [simp]: "slot (put_slot b x) = slot x"
  by (simp add: put_slot_def)





















end
